theory Spec2Isabelle
  imports Main
begin

section \<open>electron-reload: a shallow embedding of \<open>src/main.ts\<close>\<close>

text \<open>
  The module is event driven. Its only own state is the array \<open>browserWindows\<close> and
  the two chokidar subscriptions it opens; everything else is a call into Electron, chokidar
  or \<open>child_process\<close>. The embedding keeps that shape:
  \<^item> values read from the surroundings (\<open>app.getAppPath()\<close>, \<open>module.parent?.filename\<close>,
    \<open>fs.existsSync\<close>) are the fields of an environment record;
  \<^item> every call that acts on the outside world is appended to a trace of effects;
  \<^item> a chokidar watcher is the record of what the module told it: the paths given to
    \<open>watch\<close>/\<open>add\<close>, the \<open>ignored\<close> option, whether \<open>close\<close> was called and the
    listeners bound to \<open>'change'\<close>. An event of the model is the emission itself; which
    file changes make a watcher emit is the watch service's business and enters only as
    a parameter, where a property depends on it;
  \<^item> the default export is a function from environment, glob and options to the state it
    leaves behind, and the callbacks it registered are run by a step function.
\<close>

subsection \<open>JavaScript values and array operations\<close>

text \<open>
  An optional property that is only read (\<open>options.mainFile\<close>, \<open>options.electron\<close>, ...) is
  an \<open>option\<close>: \<open>None\<close> stands for both a missing key and the value \<open>undefined\<close>, which
  \<open>??\<close>, \<open>===\<close> and \<open>typeof\<close> do not tell apart. \<open>Object.assign\<close> does tell them apart
  (it copies every own key of its source, also one holding \<open>undefined\<close>), so the one
  property whose default it may overwrite, \<open>ignored\<close>, has three states.
\<close>

datatype 'a jsprop = Missing | Undefined | Val 'a

text \<open>\<open>a ?? b\<close>: the left operand unless it is null or undefined.\<close>

definition nullish :: "'a option \<Rightarrow> 'a option \<Rightarrow> 'a option" where
  "nullish a b = (case a of Some v \<Rightarrow> Some v | None \<Rightarrow> b)"

definition nullish_default :: "'a option \<Rightarrow> 'a \<Rightarrow> 'a" where
  "nullish_default a d = (case a of Some v \<Rightarrow> v | None \<Rightarrow> d)"

text \<open>\<open>Array.prototype.indexOf\<close>: the first index holding the element, \<open>-1\<close> if none does.\<close>

fun indexOf :: "'a list \<Rightarrow> 'a \<Rightarrow> int" where
  "indexOf [] x = - 1"
| "indexOf (y # ys) x =
     (if y = x then 0 else (let i = indexOf ys x in if i < 0 then - 1 else i + 1))"

text \<open>
  \<open>Array.prototype.splice(start, deleteCount)\<close> with no inserted items, returning the
  array as it is afterwards. A negative \<open>start\<close> counts from the end, as ECMAScript
  prescribes: \<open>max(len + start, 0)\<close>.
\<close>

definition spliceJS :: "'a list \<Rightarrow> int \<Rightarrow> int \<Rightarrow> 'a list" where
  "spliceJS xs start deleteCount =
     (let len = int (length xs);
          actualStart = (if start < 0 then max (len + start) 0 else min start len);
          actualDeleteCount = min (max deleteCount 0) (len - actualStart)
      in take (nat actualStart) xs @ drop (nat (actualStart + actualDeleteCount)) xs)"

text \<open>\<open>Array.prototype.forEach\<close> with a callback that acts on a threaded state.\<close>

definition forEach :: "'a list \<Rightarrow> ('a \<Rightarrow> 's \<Rightarrow> 's) \<Rightarrow> 's \<Rightarrow> 's" where
  "forEach xs f s = foldl (\<lambda>acc x. f x acc) s xs"

subsection \<open>Regular expressions, as far as \<open>ignoredPaths\<close> needs them\<close>

datatype regexp =
    Lit string
  | CharClass "char list"
  | Seq regexp regexp
  | Alt regexp regexp

text \<open>\<open>match_at r s\<close>: what is left of \<open>s\<close> after each way \<open>r\<close> matches a prefix of it.\<close>

fun match_at :: "regexp \<Rightarrow> string \<Rightarrow> string list" where
  "match_at (Lit l) s = (if take (length l) s = l then [drop (length l) s] else [])"
| "match_at (CharClass cs) s =
     (case s of [] \<Rightarrow> [] | c # r \<Rightarrow> if c \<in> set cs then [r] else [])"
| "match_at (Seq a b) s = concat (map (match_at b) (match_at a s))"
| "match_at (Alt a b) s = match_at a s @ match_at b s"

text \<open>\<open>RegExp.prototype.test\<close> without anchors: a match may start anywhere.\<close>

fun test :: "regexp \<Rightarrow> string \<Rightarrow> bool" where
  "test r [] = (match_at r [] \<noteq> [])"
| "test r (c # s) = (match_at r (c # s) \<noteq> [] \<or> test r s)"

text \<open>Line 7: \<^verbatim>\<open>const ignoredPaths = /node_modules|[/\\]\./\<close>.\<close>

definition ignoredPaths :: regexp where
  "ignoredPaths =
     Alt (Lit ''node_modules'') (Seq (CharClass [CHR ''/'', CHR 0x5C]) (Lit ''.''))"

subsection \<open>Configuration and surroundings\<close>

text \<open>An entry of chokidar's \<open>ignored\<close> option: a regular expression, a string or a function.\<close>

datatype matcher = RegExpM regexp | StringM string | FnM nat

text \<open>The first parameter, \<open>glob: string | string[]\<close>.\<close>

datatype glob = One string | Many "string list"

text \<open>
  The second parameter. Of the chokidar options only \<open>ignored\<close> is kept (a lone matcher
  is the one-element list); the others are handed to chokidar untouched and no branch of
  the module reads them.
\<close>

record options =
  ignored :: "matcher list jsprop"
  hardResetMethod :: "string option"
  argv :: "string list option"
  forceHardReset :: "bool option"
  electron :: "string option"
  mainFile :: "string option"

record env =
  appPath :: string
  parentFilename :: "string option"
  existsSync :: "string \<Rightarrow> bool"

subsection \<open>Effects\<close>

type_synonym window = nat

record spawnOptions =
  detached :: bool
  stdio :: string

datatype effect =
    Spawn string "string list" spawnOptions
  | ChildUnref
  | AppExit
  | AppQuit
  | ReloadIgnoringCache window
  | ConsoleLog string

subsection \<open>The watch service at its interface\<close>

text \<open>
  The two callbacks the module binds. The hard-reset callback is the closure returned by
  \<open>createHardresetHandler\<close>; it is represented by the three values it captured.
\<close>

datatype handler =
    SoftResetHandler
  | HardResetHandler string "string option" "string list option"

datatype listener = On handler | Once handler

record fswatcher =
  paths :: "string list"
  ignoredOpt :: "matcher list option"
  closed :: bool
  listeners :: "listener list"

definition arrify :: "glob \<Rightarrow> string list" where
  "arrify g = (case g of One p \<Rightarrow> [p] | Many ps \<Rightarrow> ps)"

text \<open>
  \<open>Object.assign({ ignored: dflt }, options)\<close>, read at the key \<open>ignored\<close>: the default
  survives only when \<open>options\<close> has no such key.
\<close>

definition assignIgnored :: "matcher list \<Rightarrow> options \<Rightarrow> matcher list option" where
  "assignIgnored dflt opts =
     (case ignored opts of Missing \<Rightarrow> Some dflt | Undefined \<Rightarrow> None | Val ms \<Rightarrow> Some ms)"

definition watch :: "glob \<Rightarrow> matcher list option \<Rightarrow> fswatcher" where
  "watch g ign = \<lparr>paths = arrify g, ignoredOpt = ign, closed = False, listeners = []\<rparr>"

definition add :: "fswatcher \<Rightarrow> glob \<Rightarrow> fswatcher" where
  "add w g = w\<lparr>paths := paths w @ arrify g\<rparr>"

text \<open>\<open>close()\<close> stops the watcher and drops every listener bound to it.\<close>

definition close :: "fswatcher \<Rightarrow> fswatcher" where
  "close w = w\<lparr>closed := True, listeners := []\<rparr>"

definition on :: "fswatcher \<Rightarrow> handler \<Rightarrow> fswatcher" where
  "on w h = w\<lparr>listeners := listeners w @ [On h]\<rparr>"

definition once :: "fswatcher \<Rightarrow> handler \<Rightarrow> fswatcher" where
  "once w h = w\<lparr>listeners := listeners w @ [Once h]\<rparr>"

fun handlerOf :: "listener \<Rightarrow> handler" where
  "handlerOf (On h) = h"
| "handlerOf (Once h) = h"

fun isOn :: "listener \<Rightarrow> bool" where
  "isOn (On h) = True"
| "isOn (Once h) = False"

text \<open>
  Emitting \<open>'change'\<close>: the handlers to call, in the order they were bound, and the
  watcher with its one-shot listeners removed.
\<close>

definition emit :: "fswatcher \<Rightarrow> handler list \<times> fswatcher" where
  "emit w = (map handlerOf (listeners w), w\<lparr>listeners := filter isOn (listeners w)\<rparr>)"

text \<open>The rules a watcher ignores by; \<open>ignored: undefined\<close> ignores nothing.\<close>

definition ignoreSet :: "fswatcher \<Rightarrow> matcher set" where
  "ignoreSet w = (case ignoredOpt w of None \<Rightarrow> {} | Some ms \<Rightarrow> set ms)"

subsection \<open>The module's state and callbacks\<close>

text \<open>
  \<open>closedListeners\<close> lists the windows that carry this module's \<open>'closed'\<close> listener,
  one entry for each \<open>bw.on('closed', ...)\<close> of lines 81 to 84.
\<close>

record state =
  browserWindows :: "window list"
  closedListeners :: "window list"
  watcher :: fswatcher
  hardWatcher :: "fswatcher option"
  trace :: "effect list"

definition perform :: "effect \<Rightarrow> state \<Rightarrow> state" where
  "perform e s = s\<lparr>trace := trace s @ [e]\<rparr>"

text \<open>Lines 20 to 43: what calling the closure of \<open>createHardresetHandler\<close> does.\<close>

definition createHardresetHandler ::
  "env \<Rightarrow> string \<Rightarrow> string option \<Rightarrow> string list option \<Rightarrow> state \<Rightarrow> state" where
  "createHardresetHandler env eXecutable method argvOpt s =
     (let args = nullish_default argvOpt [] @ [appPath env];
          s1 = perform (Spawn eXecutable args \<lparr>detached = True, stdio = ''inherit''\<rparr>) s;
          s2 = perform ChildUnref s1
      in if method = Some ''exit'' then perform AppExit s2 else perform AppQuit s2)"

text \<open>Lines 66 and 67.\<close>

definition softResetHandler :: "state \<Rightarrow> state" where
  "softResetHandler s =
     forEach (browserWindows s) (\<lambda>bw. perform (ReloadIgnoringCache bw)) s"

text \<open>Lines 81 to 84: the \<open>'closed'\<close> listener of the window \<open>bw\<close>.\<close>

definition onClosed :: "window \<Rightarrow> state \<Rightarrow> state" where
  "onClosed bw s =
     (let i = indexOf (browserWindows s) bw
      in s\<lparr>browserWindows := spliceJS (browserWindows s) i 1\<rparr>)"

text \<open>Lines 77 to 85: the \<open>'browser-window-created'\<close> listener.\<close>

definition onBrowserWindowCreated :: "window \<Rightarrow> state \<Rightarrow> state" where
  "onBrowserWindowCreated bw s =
     s\<lparr>browserWindows := browserWindows s @ [bw],
       closedListeners := closedListeners s @ [bw]\<rparr>"

fun call :: "env \<Rightarrow> handler \<Rightarrow> state \<Rightarrow> state" where
  "call env SoftResetHandler s = softResetHandler s"
| "call env (HardResetHandler e m a) s = createHardresetHandler env e m a s"

subsection \<open>The default export\<close>

text \<open>Line 57.\<close>

definition resolveMainFile :: "env \<Rightarrow> options \<Rightarrow> string" where
  "resolveMainFile env opts =
     nullish_default (nullish (mainFile opts) (parentFilename env)) ''''"

definition diagnostic :: string where
  "diagnostic = ''Electron could not be found. No hard resets for you!''"

text \<open>Line 92: \<^verbatim>\<open>typeof eXecutable === 'string' && fs.existsSync(eXecutable)\<close>.\<close>

definition hardResetEligible :: "env \<Rightarrow> string option \<Rightarrow> bool" where
  "hardResetEligible env eXecutable =
     (case eXecutable of None \<Rightarrow> False | Some e \<Rightarrow> existsSync env e)"

text \<open>
  Lines 56 to 109, statement by statement; the result is the state in which the module
  waits for events. The listener of line 77 is not a field of the state: it is bound
  once and for good, and \<open>step\<close> below runs it.
\<close>

definition electronReload :: "env \<Rightarrow> glob \<Rightarrow> options \<Rightarrow> state" where
  "electronReload env g opts =
     (let mainFile0 = resolveMainFile env opts;
          watcher0 = watch g (assignIgnored [RegExpM ignoredPaths, StringM mainFile0] opts);
          eXecutable = electron opts;
          hardResetHandler =
            HardResetHandler (nullish_default eXecutable '''') (hardResetMethod opts) (argv opts);
          watcher1 = on watcher0 SoftResetHandler
      in if hardResetEligible env eXecutable then
           (let hardWatcher0 = watch (One mainFile0) (assignIgnored [RegExpM ignoredPaths] opts);
                hardWatcher1 =
                  (if forceHardReset opts = Some True then add hardWatcher0 g else hardWatcher0);
                watcher2 = (if forceHardReset opts = Some True then close watcher1 else watcher1)
            in \<lparr>browserWindows = [], closedListeners = [], watcher = watcher2,
                hardWatcher = Some (once hardWatcher1 hardResetHandler), trace = []\<rparr>)
         else
           \<lparr>browserWindows = [], closedListeners = [], watcher = watcher1,
            hardWatcher = None, trace = [ConsoleLog diagnostic]\<rparr>)"

subsection \<open>Events\<close>

datatype event =
    BrowserWindowCreated window
  | Closed window
  | SoftChange
  | HardChange

text \<open>
  One event delivered to the module: a window created, a window's \<open>'closed'\<close> (every
  listener the module bound to that window runs), or a \<open>'change'\<close> emitted by one of the
  two watchers. The model goes on after \<open>app.quit()\<close> and \<open>app.exit()\<close>, so what is proved
  for all event sequences also covers a quit that the application intercepts.
\<close>

fun step :: "env \<Rightarrow> state \<Rightarrow> event \<Rightarrow> state" where
  "step env s (BrowserWindowCreated bw) = onBrowserWindowCreated bw s"
| "step env s (Closed bw) = ((onClosed bw) ^^ (count_list (closedListeners s) bw)) s"
| "step env s SoftChange =
     (case emit (watcher s) of (hs, w) \<Rightarrow> foldl (\<lambda>acc h. call env h acc) (s\<lparr>watcher := w\<rparr>) hs)"
| "step env s HardChange =
     (case hardWatcher s of
        None \<Rightarrow> s
      | Some hw \<Rightarrow>
          (case emit hw of (hs, w) \<Rightarrow>
             foldl (\<lambda>acc h. call env h acc) (s\<lparr>hardWatcher := Some w\<rparr>) hs))"

definition run :: "env \<Rightarrow> state \<Rightarrow> event list \<Rightarrow> state" where
  "run env s evs = foldl (step env) s evs"

subsection \<open>File changes, with the watch service as a parameter\<close>





subsection \<open>Vocabulary of the properties\<close>

text \<open>The effects of one call of the hard-reset callback, and the spawn among them.\<close>

fun isSpawn :: "effect \<Rightarrow> bool" where
  "isSpawn (Spawn e args so) = True"
| "isSpawn _ = False"

fun isRespawn :: "effect \<Rightarrow> bool" where
  "isRespawn (Spawn e args so) = True"
| "isRespawn ChildUnref = True"
| "isRespawn AppExit = True"
| "isRespawn AppQuit = True"
| "isRespawn _ = False"

fun isReload :: "effect \<Rightarrow> bool" where
  "isReload (ReloadIgnoringCache bw) = True"
| "isReload _ = False"

text \<open>
  Window notifications as Electron delivers them: a window is created once, and it is
  closed at most once and only after it was created. \<open>admissible past e\<close> says that
  \<open>e\<close> may follow the events \<open>past\<close>.
\<close>

fun admissible :: "event list \<Rightarrow> event \<Rightarrow> bool" where
  "admissible past (BrowserWindowCreated bw) = (BrowserWindowCreated bw \<notin> set past)"
| "admissible past (Closed bw) =
     (BrowserWindowCreated bw \<in> set past \<and> Closed bw \<notin> set past)"
| "admissible past SoftChange = True"
| "admissible past HardChange = True"

fun pairedFrom :: "event list \<Rightarrow> event list \<Rightarrow> bool" where
  "pairedFrom past [] = True"
| "pairedFrom past (e # evs) = (admissible past e \<and> pairedFrom (past @ [e]) evs)"

definition paired :: "event list \<Rightarrow> bool" where
  "paired evs = pairedFrom [] evs"

fun createdWindows :: "event list \<Rightarrow> window list" where
  "createdWindows [] = []"
| "createdWindows (BrowserWindowCreated bw # evs) = bw # createdWindows evs"
| "createdWindows (e # evs) = createdWindows evs"

text \<open>The windows created and not yet closed, in the order of their creation.\<close>

definition liveWindows :: "event list \<Rightarrow> window list" where
  "liveWindows evs = filter (\<lambda>bw. Closed bw \<notin> set evs) (createdWindows evs)"

subsection \<open>Sample configurations\<close>

definition sampleEnv :: env where
  "sampleEnv =
     \<lparr>appPath = ''/app'', parentFilename = Some ''/app/main.js'',
      existsSync = (\<lambda>p. p = ''/usr/bin/electron'')\<rparr>"

definition noOptions :: options where
  "noOptions =
     \<lparr>ignored = Missing, hardResetMethod = None, argv = None, forceHardReset = None,
      electron = None, mainFile = None\<rparr>"

definition overridingOptions :: options where
  "overridingOptions = noOptions\<lparr>ignored := Val [StringM ''dist'']\<rparr>"

definition escalatingOptions :: options where
  "escalatingOptions = noOptions\<lparr>forceHardReset := Some True\<rparr>"

definition electronOptions :: options where
  "electronOptions = noOptions\<lparr>electron := Some ''/usr/bin/electron''\<rparr>"


definition orphanEnv :: env where
  "orphanEnv = sampleEnv\<lparr>parentFilename := None\<rparr>"

subsection \<open>Definitions used in the proofs\<close>

text \<open>What a bound callback appends to the trace, given the registry at the time of the call.\<close>

fun effectsOf :: "env \<Rightarrow> window list \<Rightarrow> handler \<Rightarrow> effect list" where
  "effectsOf env bws SoftResetHandler = map ReloadIgnoringCache bws"
| "effectsOf env bws (HardResetHandler e m a) =
     [Spawn e (nullish_default a [] @ [appPath env]) \<lparr>detached = True, stdio = ''inherit''\<rparr>,
      ChildUnref, if m = Some ''exit'' then AppExit else AppQuit]"

text \<open>The soft watcher carries nothing but the soft-reset callback, bound with \<open>on\<close>.\<close>

definition softInv :: "state \<Rightarrow> bool" where
  "softInv s = (set (listeners (watcher s)) \<subseteq> {On SoftResetHandler})"

text \<open>
  The hard watcher is either armed (its one-shot listener is still bound and nothing was
  respawned) or spent (no listener left, at most one spawn behind it).
\<close>

definition hardInv :: "state \<Rightarrow> bool" where
  "hardInv s =
     (case hardWatcher s of
        None \<Rightarrow> filter isRespawn (trace s) = []
      | Some hw \<Rightarrow>
          ((\<exists>e m a. listeners hw = [Once (HardResetHandler e m a)]) \<and>
             filter isRespawn (trace s) = []) \<or>
          (listeners hw = [] \<and> length (filter isSpawn (trace s)) \<le> 1))"

definition spent :: "state \<Rightarrow> bool" where
  "spent s = (case hardWatcher s of None \<Rightarrow> True | Some hw \<Rightarrow> listeners hw = [])"

text \<open>With the soft watcher closed nothing reloads a window.\<close>

definition quietInv :: "state \<Rightarrow> bool" where
  "quietInv s =
     (listeners (watcher s) = [] \<and> filter isReload (trace s) = [] \<and>
      (case hardWatcher s of
         None \<Rightarrow> True
       | Some hw \<Rightarrow> list_all (\<lambda>l. handlerOf l \<noteq> SoftResetHandler) (listeners hw)))"


section \<open>Auxiliary facts\<close>

subsection \<open>Arrays\<close>

lemma indexOf_absent: "x \<notin> set xs \<Longrightarrow> indexOf xs x = - 1"
  by (induction xs) (auto simp: Let_def)

lemma indexOf_present: "x \<in> set xs \<Longrightarrow> 0 \<le> indexOf xs x \<and> indexOf xs x < int (length xs)"
  by (induction xs) (auto simp: Let_def)

lemma splice_indexOf_present:
  "x \<in> set xs \<Longrightarrow> spliceJS xs (indexOf xs x) 1 = remove1 x xs"
proof (induction xs)
  case Nil
  then show ?case by simp
next
  case (Cons y ys)
  show ?case
  proof (cases "y = x")
    case True
    then show ?thesis by (simp add: spliceJS_def)
  next
    case False
    with Cons.prems have mem: "x \<in> set ys" by simp
    from indexOf_present [OF mem] have b: "0 \<le> indexOf ys x" "indexOf ys x < int (length ys)" by auto
    from Cons.IH [OF mem] b have "take (nat (indexOf ys x)) ys @ drop (nat (indexOf ys x + 1)) ys = remove1 x ys"
      by (simp add: spliceJS_def Let_def min_def max_def split: if_splits)
    with False b show ?thesis
      by (simp add: spliceJS_def Let_def min_def max_def nat_add_distrib)
  qed
qed

lemma splice_indexOf_absent: "x \<notin> set xs \<Longrightarrow> spliceJS xs (indexOf xs x) 1 = butlast xs"
  by (cases xs rule: rev_cases) (auto simp: spliceJS_def indexOf_absent Let_def max_def min_def butlast_conv_take simp del: set_append)

lemma pairedFrom_snoc:
  "pairedFrom past (xs @ [e]) \<longleftrightarrow> pairedFrom past xs \<and> admissible (past @ xs) e"
  by (induction xs arbitrary: past) auto

lemma paired_snoc: "paired (evs @ [e]) \<longleftrightarrow> paired evs \<and> admissible evs e"
  by (simp add: paired_def pairedFrom_snoc)

lemma paired_Nil: "paired []"
  by (simp add: paired_def)


subsection \<open>Regex\<close>

lemma test_iff: "test r s \<longleftrightarrow> (\<exists>u v. s = u @ v \<and> match_at r v \<noteq> [])"
proof (induction s)
  case Nil
  then show ?case by simp
next
  case (Cons c s)
  show ?case
  proof
    assume "test r (c # s)"
    then consider "match_at r (c # s) \<noteq> []" | "test r s" by auto
    then show "\<exists>u v. c # s = u @ v \<and> match_at r v \<noteq> []"
    proof cases
      case 1
      then have "c # s = [] @ (c # s) \<and> match_at r (c # s) \<noteq> []" by simp
      then show ?thesis by blast
    next
      case 2
      with Cons.IH obtain u v where "s = u @ v" "match_at r v \<noteq> []" by auto
      then have "c # s = (c # u) @ v \<and> match_at r v \<noteq> []" by simp
      then show ?thesis by blast
    qed
  next
    assume "\<exists>u v. c # s = u @ v \<and> match_at r v \<noteq> []"
    then obtain u v where uv: "c # s = u @ v" "match_at r v \<noteq> []" by auto
    show "test r (c # s)"
    proof (cases u)
      case Nil
      with uv have "match_at r (c # s) \<noteq> []" by simp
      then show ?thesis by simp
    next
      case (Cons d u')
      with uv have "s = u' @ v" by simp
      with uv(2) Cons.IH have "test r s" by auto
      then show ?thesis by simp
    qed
  qed
qed

lemma take_eq_iff_prefix: "take (length l) v = l \<longleftrightarrow> (\<exists>w. v = l @ w)"
proof
  assume "take (length l) v = l"
  then have "v = l @ drop (length l) v" by (metis append_take_drop_id)
  then show "\<exists>w. v = l @ w" ..
next
  assume "\<exists>w. v = l @ w"
  then show "take (length l) v = l" by auto
qed

lemma match_at_ignoredPaths:
  "match_at ignoredPaths v \<noteq> [] \<longleftrightarrow>
     (\<exists>w. v = ''node_modules'' @ w) \<or> (\<exists>w. v = ''/.'' @ w) \<or> (\<exists>w. v = [CHR 0x5C, CHR ''.''] @ w)"
proof -
  have a: "match_at (Lit ''node_modules'') v \<noteq> [] \<longleftrightarrow> (\<exists>w. v = ''node_modules'' @ w)"
    using take_eq_iff_prefix [of "''node_modules''" v] by simp
  have b: "match_at (Seq (CharClass [CHR ''/'', CHR 0x5C]) (Lit ''.'')) v \<noteq> [] \<longleftrightarrow>
      (\<exists>w. v = ''/.'' @ w) \<or> (\<exists>w. v = [CHR 0x5C, CHR ''.''] @ w)"
  proof (cases v)
    case Nil
    then show ?thesis by simp
  next
    case (Cons c r)
    then show ?thesis by (cases r) auto
  qed
  show ?thesis unfolding ignoredPaths_def using a b by simp
qed

lemma test_ignoredPaths:
  "test ignoredPaths p \<longleftrightarrow>
     (\<exists>u w. p = u @ ''node_modules'' @ w) \<or> (\<exists>u w. p = u @ ''/.'' @ w)
       \<or> (\<exists>u w. p = u @ [CHR 0x5C, CHR ''.''] @ w)"
  unfolding test_iff match_at_ignoredPaths by blast

subsection \<open>forEach\<close>

lemma forEach_perform:
  "forEach xs (\<lambda>x. perform (f x)) s = s\<lparr>trace := trace s @ map f xs\<rparr>"
proof (induction xs arbitrary: s)
  case Nil
  then show ?case by (simp add: forEach_def)
next
  case (Cons x xs)
  have "forEach (x # xs) (\<lambda>x. perform (f x)) s = forEach xs (\<lambda>x. perform (f x)) (perform (f x) s)"
    by (simp add: forEach_def)
  also have "\<dots> = (perform (f x) s)\<lparr>trace := trace (perform (f x) s) @ map f xs\<rparr>"
    by (rule Cons.IH)
  also have "\<dots> = s\<lparr>trace := trace s @ map f (x # xs)\<rparr>"
    by (simp add: perform_def)
  finally show ?case .
qed

lemma softResetHandler_eq:
  "softResetHandler s = s\<lparr>trace := trace s @ map ReloadIgnoringCache (browserWindows s)\<rparr>"
  unfolding softResetHandler_def by (rule forEach_perform)

lemma createHardresetHandler_eq:
  "createHardresetHandler env e m a s =
     s\<lparr>trace := trace s @
        [Spawn e (nullish_default a [] @ [appPath env]) \<lparr>detached = True, stdio = ''inherit''\<rparr>,
         ChildUnref, if m = Some ''exit'' then AppExit else AppQuit]\<rparr>"
  by (simp add: createHardresetHandler_def perform_def Let_def)

subsection \<open>What one step changes\<close>

lemma call_eq: "call env h s = s\<lparr>trace := trace s @ effectsOf env (browserWindows s) h\<rparr>"
  by (cases h) (simp_all add: softResetHandler_eq createHardresetHandler_eq)

lemma calls_eq:
  "foldl (\<lambda>acc h. call env h acc) s hs =
     s\<lparr>trace := trace s @ concat (map (effectsOf env (browserWindows s)) hs)\<rparr>"
proof (induction hs arbitrary: s)
  case Nil
  then show ?case by simp
next
  case (Cons h hs)
  have "foldl (\<lambda>acc h. call env h acc) s (h # hs) = foldl (\<lambda>acc h. call env h acc) (call env h s) hs"
    by simp
  also have "\<dots> = (call env h s)\<lparr>trace := trace (call env h s) @
      concat (map (effectsOf env (browserWindows (call env h s))) hs)\<rparr>"
    by (rule Cons.IH)
  also have "\<dots> = s\<lparr>trace := trace s @ concat (map (effectsOf env (browserWindows s)) (h # hs))\<rparr>"
    by (simp add: call_eq)
  finally show ?case .
qed

lemma onClosed_funpow:
  "(onClosed bw ^^ n) s =
     s\<lparr>browserWindows := ((\<lambda>xs. spliceJS xs (indexOf xs bw) 1) ^^ n) (browserWindows s)\<rparr>"
proof (induction n)
  case 0
  then show ?case by simp
next
  case (Suc n)
  then show ?case by (simp add: onClosed_def Let_def)
qed

lemma step_SoftChange:
  "step env s SoftChange =
     s\<lparr>watcher := (watcher s)\<lparr>listeners := filter isOn (listeners (watcher s))\<rparr>,
       trace := trace s @
         concat (map (effectsOf env (browserWindows s)) (map handlerOf (listeners (watcher s))))\<rparr>"
  by (simp add: emit_def calls_eq)

lemma step_HardChange_Some:
  "hardWatcher s = Some hw \<Longrightarrow>
   step env s HardChange =
     s\<lparr>hardWatcher := Some (hw\<lparr>listeners := filter isOn (listeners hw)\<rparr>),
       trace := trace s @
         concat (map (effectsOf env (browserWindows s)) (map handlerOf (listeners hw)))\<rparr>"
  by (simp add: emit_def calls_eq)

lemma step_HardChange_None: "hardWatcher s = None \<Longrightarrow> step env s HardChange = s"
  by simp

lemma step_HardChange_spent:
  "hardWatcher s = Some hw \<Longrightarrow> listeners hw = [] \<Longrightarrow> step env s HardChange = s"
proof -
  assume h: "hardWatcher s = Some hw" and l: "listeners hw = []"
  from l have "hw\<lparr>listeners := filter isOn (listeners hw)\<rparr> = hw" by simp
  with h l show ?thesis by (simp add: step_HardChange_Some del: step.simps)
qed

lemma step_Closed:
  "step env s (Closed bw) =
     s\<lparr>browserWindows :=
         ((\<lambda>xs. spliceJS xs (indexOf xs bw) 1) ^^ count_list (closedListeners s) bw)
           (browserWindows s)\<rparr>"
  by (simp add: onClosed_funpow)

lemma step_Created:
  "step env s (BrowserWindowCreated bw) =
     s\<lparr>browserWindows := browserWindows s @ [bw], closedListeners := closedListeners s @ [bw]\<rparr>"
  by (simp add: onBrowserWindowCreated_def)

lemmas step_eqs = step_Created step_Closed step_SoftChange step_HardChange_None

lemma run_Nil: "run env s [] = s"
  by (simp add: run_def)

lemma run_snoc: "run env s (evs @ [e]) = step env (run env s evs) e"
  by (simp add: run_def)

lemma run_Cons: "run env s (e # evs) = run env (step env s e) evs"
  by (simp add: run_def)

lemma run_append: "run env s (xs @ ys) = run env (run env s xs) ys"
  by (simp add: run_def)

subsection \<open>Fields a step leaves alone\<close>

lemma step_closedListeners:
  "closedListeners (step env s e) =
     (case e of BrowserWindowCreated bw \<Rightarrow> closedListeners s @ [bw] | _ \<Rightarrow> closedListeners s)"
  by (cases e; cases "hardWatcher s") (simp_all add: step_eqs step_HardChange_Some del: step.simps)

lemma step_browserWindows_change:
  "e = SoftChange \<or> e = HardChange \<Longrightarrow> browserWindows (step env s e) = browserWindows s"
  by (cases "hardWatcher s") (auto simp add: step_eqs step_HardChange_Some simp del: step.simps)

lemma step_watcher_fields:
  "paths (watcher (step env s e)) = paths (watcher s) \<and>
   ignoredOpt (watcher (step env s e)) = ignoredOpt (watcher s) \<and>
   closed (watcher (step env s e)) = closed (watcher s)"
  by (cases e; cases "hardWatcher s") (simp_all add: step_eqs step_HardChange_Some del: step.simps)

lemma step_watcher_listeners:
  "listeners (watcher (step env s e)) =
     (if e = SoftChange then filter isOn (listeners (watcher s)) else listeners (watcher s))"
  by (cases e; cases "hardWatcher s") (simp_all add: step_eqs step_HardChange_Some del: step.simps)

lemma step_hardWatcher:
  "hardWatcher (step env s e) =
     (if e = HardChange
      then map_option (\<lambda>hw. hw\<lparr>listeners := filter isOn (listeners hw)\<rparr>) (hardWatcher s)
      else hardWatcher s)"
  by (cases e; cases "hardWatcher s") (simp_all add: step_eqs step_HardChange_Some del: step.simps)

lemma step_trace:
  "trace (step env s e) = trace s @
     (case e of
        SoftChange \<Rightarrow>
          concat (map (effectsOf env (browserWindows s)) (map handlerOf (listeners (watcher s))))
      | HardChange \<Rightarrow>
          (case hardWatcher s of None \<Rightarrow> []
           | Some hw \<Rightarrow>
               concat (map (effectsOf env (browserWindows s)) (map handlerOf (listeners hw))))
      | _ \<Rightarrow> [])"
  by (cases e; cases "hardWatcher s") (simp_all add: step_eqs step_HardChange_Some del: step.simps)

declare step.simps [simp del]

subsection \<open>The state after start-up\<close>

lemma electronReload_ineligible:
  "\<not> hardResetEligible env (electron opts) \<Longrightarrow>
   electronReload env g opts =
     \<lparr>browserWindows = [], closedListeners = [],
      watcher = \<lparr>paths = arrify g,
        ignoredOpt = assignIgnored [RegExpM ignoredPaths, StringM (resolveMainFile env opts)] opts,
        closed = False, listeners = [On SoftResetHandler]\<rparr>,
      hardWatcher = None, trace = [ConsoleLog diagnostic]\<rparr>"
  by (simp add: electronReload_def Let_def watch_def on_def)

lemma electronReload_eligible:
  "hardResetEligible env (electron opts) \<Longrightarrow>
   electronReload env g opts =
     \<lparr>browserWindows = [], closedListeners = [],
      watcher = \<lparr>paths = arrify g,
        ignoredOpt = assignIgnored [RegExpM ignoredPaths, StringM (resolveMainFile env opts)] opts,
        closed = (forceHardReset opts = Some True),
        listeners = (if forceHardReset opts = Some True then [] else [On SoftResetHandler])\<rparr>,
      hardWatcher = Some
        \<lparr>paths = resolveMainFile env opts #
           (if forceHardReset opts = Some True then arrify g else []),
         ignoredOpt = assignIgnored [RegExpM ignoredPaths] opts,
         closed = False,
         listeners = [Once (HardResetHandler (nullish_default (electron opts) [])
                        (hardResetMethod opts) (argv opts))]\<rparr>,
      trace = []\<rparr>"
  by (simp add: electronReload_def Let_def watch_def on_def once_def add_def close_def arrify_def)

lemma hardResetEligible_iff:
  "hardResetEligible env x \<longleftrightarrow> (\<exists>e. x = Some e \<and> existsSync env e)"
  by (cases x) (simp_all add: hardResetEligible_def)

lemma softInv_init: "softInv (electronReload env g opts)"
  by (cases "hardResetEligible env (electron opts)")
     (simp_all add: softInv_def electronReload_eligible electronReload_ineligible)

lemma hardInv_init: "hardInv (electronReload env g opts)"
  by (cases "hardResetEligible env (electron opts)")
     (simp_all add: hardInv_def electronReload_eligible electronReload_ineligible)

subsection \<open>Invariants of the event loop\<close>

lemma soft_effects_no_respawn:
  "set ls \<subseteq> {On SoftResetHandler} \<Longrightarrow>
   filter isRespawn (concat (map (effectsOf env bws) (map handlerOf ls))) = []"
proof (induction ls)
  case Nil
  then show ?case by simp
next
  case (Cons l ls)
  then have "l = On SoftResetHandler" by simp
  moreover have "filter isRespawn (map ReloadIgnoringCache bws) = []"
    by (induction bws) simp_all
  ultimately show ?case using Cons by simp
qed

lemma no_respawn_no_spawn: "filter isRespawn t = [] \<Longrightarrow> filter isSpawn t = []"
proof (induction t)
  case Nil
  then show ?case by simp
next
  case (Cons x t)
  then show ?case by (cases x) (simp_all split: if_splits)
qed

lemma softInv_step: "softInv s \<Longrightarrow> softInv (step env s e)"
  unfolding softInv_def step_watcher_listeners by auto

lemma softInv_listeners_step:
  "softInv s \<Longrightarrow> listeners (watcher (step env s e)) = listeners (watcher s)"
proof -
  assume "softInv s"
  then have "\<forall>l \<in> set (listeners (watcher s)). isOn l" by (auto simp: softInv_def)
  then have "filter isOn (listeners (watcher s)) = listeners (watcher s)" by simp
  then show ?thesis by (simp add: step_watcher_listeners)
qed

lemma hardInv_step:
  assumes "softInv s" and "hardInv s"
  shows "hardInv (step env s e)"
proof (cases e)
  case (BrowserWindowCreated bw)
  with assms(2) show ?thesis by (simp add: hardInv_def step_hardWatcher step_trace split: option.splits)
next
  case (Closed bw)
  with assms(2) show ?thesis by (simp add: hardInv_def step_hardWatcher step_trace split: option.splits)
next
  case SoftChange
  from assms(1) have nr: "filter isRespawn (concat (map (effectsOf env (browserWindows s))
      (map handlerOf (listeners (watcher s))))) = []"
    unfolding softInv_def by (rule soft_effects_no_respawn)
  then have ns: "filter isSpawn (concat (map (effectsOf env (browserWindows s))
      (map handlerOf (listeners (watcher s))))) = []"
    by (rule no_respawn_no_spawn)
  have h: "hardWatcher (step env s e) = hardWatcher s"
    using SoftChange by (simp add: step_hardWatcher)
  have t: "trace (step env s e) = trace s @ concat (map (effectsOf env (browserWindows s))
      (map handlerOf (listeners (watcher s))))"
    using SoftChange by (simp add: step_trace)
  from assms(2) show ?thesis
    unfolding hardInv_def h t using nr ns by (simp split: option.splits)
next
  case HardChange
  show ?thesis
  proof (cases "hardWatcher s")
    case None
    with HardChange assms(2) show ?thesis by (simp add: step_HardChange_None)
  next
    case (Some hw)
    from assms(2) Some consider
      (armed) e' m a where "listeners hw = [Once (HardResetHandler e' m a)]"
        "filter isRespawn (trace s) = []"
      | (spent) "listeners hw = []" "length (filter isSpawn (trace s)) \<le> 1"
      by (auto simp: hardInv_def)
    then show ?thesis
    proof cases
      case armed
      from armed(2) have "filter isSpawn (trace s) = []" by (rule no_respawn_no_spawn)
      with armed(1) Some HardChange show ?thesis
        by (simp add: hardInv_def step_HardChange_Some)
    next
      case spent
      with Some HardChange assms(2) show ?thesis
        by (simp add: step_HardChange_spent)
    qed
  qed
qed

lemma inv_run:
  "softInv s \<Longrightarrow> hardInv s \<Longrightarrow> softInv (run env s evs) \<and> hardInv (run env s evs)"
proof (induction evs rule: rev_induct)
  case Nil
  then show ?case by (simp add: run_Nil)
next
  case (snoc e evs)
  then show ?case by (simp add: run_snoc softInv_step hardInv_step)
qed

lemma hardInv_spawns: "hardInv s \<Longrightarrow> length (filter isSpawn (trace s)) \<le> 1"
  by (auto simp: hardInv_def no_respawn_no_spawn split: option.splits)

lemma run_watcher:
  "softInv s \<Longrightarrow> watcher (run env s evs) = watcher s"
proof (induction evs rule: rev_induct)
  case Nil
  then show ?case by (simp add: run_Nil)
next
  case (snoc e evs)
  from snoc.prems have i: "softInv (run env s evs)"
    by (induction evs rule: rev_induct) (simp_all add: run_Nil run_snoc softInv_step)
  have "watcher (step env (run env s evs) e) = watcher (run env s evs)"
    using step_watcher_fields [of env "run env s evs" e] softInv_listeners_step [OF i, of env e]
    by (simp add: fswatcher.equality)
  with snoc show ?case by (simp add: run_snoc)
qed

lemma run_hardWatcher_None:
  "hardWatcher s = None \<Longrightarrow> hardWatcher (run env s evs) = None"
  by (induction evs rule: rev_induct) (simp_all add: run_Nil run_snoc step_hardWatcher)

lemma spent_step: "spent s \<Longrightarrow> spent (step env s e)"
  by (auto simp: spent_def step_hardWatcher split: option.splits)

lemma spent_run: "spent s \<Longrightarrow> spent (run env s evs)"
  by (induction evs rule: rev_induct) (simp_all add: run_Nil run_snoc spent_step)

lemma spent_after_HardChange: "hardInv s \<Longrightarrow> spent (step env s HardChange)"
  by (auto simp: spent_def hardInv_def step_hardWatcher split: option.splits)

lemma spent_idle: "spent s \<Longrightarrow> step env s HardChange = s"
  by (cases "hardWatcher s") (simp_all add: spent_def step_HardChange_spent step_HardChange_None)

subsection \<open>The registry of windows\<close>

lemma createdWindows_snoc:
  "createdWindows (evs @ [e]) =
     createdWindows evs @ (case e of BrowserWindowCreated bw \<Rightarrow> [bw] | _ \<Rightarrow> [])"
  by (induction evs rule: createdWindows.induct) (simp_all split: event.splits)

lemma set_createdWindows: "bw \<in> set (createdWindows evs) \<longleftrightarrow> BrowserWindowCreated bw \<in> set evs"
  by (induction evs rule: createdWindows.induct) auto

lemma paired_closed_created:
  "paired evs \<Longrightarrow> Closed bw \<in> set evs \<Longrightarrow> BrowserWindowCreated bw \<in> set evs"
proof (induction evs rule: rev_induct)
  case Nil
  then show ?case by simp
next
  case (snoc e evs)
  then show ?case by (cases e) (auto simp: paired_snoc)
qed

lemma distinct_count_list_one: "distinct xs \<Longrightarrow> x \<in> set xs \<Longrightarrow> count_list xs x = 1"
  by (induction xs) auto

lemma filter_neq_absent: "x \<notin> set xs \<Longrightarrow> filter (\<lambda>y. y \<noteq> x) xs = xs"
  by (induction xs) auto

lemma distinct_remove1_filter: "distinct xs \<Longrightarrow> remove1 x xs = filter (\<lambda>y. y \<noteq> x) xs"
  by (induction xs) (auto simp: filter_neq_absent)

lemma paired_distinct_created: "paired evs \<Longrightarrow> distinct (createdWindows evs)"
proof (induction evs rule: rev_induct)
  case Nil
  then show ?case by simp
next
  case (snoc e evs)
  then show ?case
    by (cases e) (auto simp: paired_snoc createdWindows_snoc set_createdWindows)
qed

lemma liveWindows_created:
  assumes "paired (evs @ [BrowserWindowCreated bw])"
  shows "liveWindows (evs @ [BrowserWindowCreated bw]) = liveWindows evs @ [bw]"
proof -
  from assms have p: "paired evs" and n: "BrowserWindowCreated bw \<notin> set evs"
    by (simp_all add: paired_snoc)
  from paired_closed_created [OF p] n have "Closed bw \<notin> set evs" by blast
  then show ?thesis by (simp add: liveWindows_def createdWindows_snoc)
qed

lemma liveWindows_closed:
  assumes "paired (evs @ [Closed bw])"
  shows "liveWindows (evs @ [Closed bw]) = remove1 bw (liveWindows evs)"
proof -
  from assms have p: "paired evs" by (simp add: paired_snoc)
  have d: "distinct (liveWindows evs)"
    using paired_distinct_created [OF p] by (simp add: liveWindows_def)
  have "liveWindows (evs @ [Closed bw]) = filter (\<lambda>w. w \<noteq> bw) (liveWindows evs)"
    by (auto simp: liveWindows_def createdWindows_snoc intro: filter_cong)
  also have "\<dots> = remove1 bw (liveWindows evs)"
    using d by (simp add: distinct_remove1_filter)
  finally show ?thesis .
qed

lemma liveWindows_change:
  "e = SoftChange \<or> e = HardChange \<Longrightarrow> liveWindows (evs @ [e]) = liveWindows evs"
  by (auto simp: liveWindows_def createdWindows_snoc)

lemma registry_run:
  assumes "browserWindows s = []" and "closedListeners s = []" and "paired evs"
  shows "browserWindows (run env s evs) = liveWindows evs \<and>
         closedListeners (run env s evs) = createdWindows evs"
  using assms(3)
proof (induction evs rule: rev_induct)
  case Nil
  with assms(1,2) show ?case by (simp add: run_Nil liveWindows_def)
next
  case (snoc e evs)
  from snoc.prems have p: "paired evs" and a: "admissible evs e" by (simp_all add: paired_snoc)
  from snoc.IH [OF p] have
    bw: "browserWindows (run env s evs) = liveWindows evs" and
    cl: "closedListeners (run env s evs) = createdWindows evs" by simp_all
  have cl': "closedListeners (run env s (evs @ [e])) = createdWindows (evs @ [e])"
    by (simp add: run_snoc step_closedListeners cl createdWindows_snoc split: event.splits)
  have "browserWindows (run env s (evs @ [e])) = liveWindows (evs @ [e])"
  proof (cases e)
    case (BrowserWindowCreated w)
    with snoc.prems bw show ?thesis
      by (simp add: run_snoc step_Created liveWindows_created)
  next
    case (Closed w)
    from a Closed have c: "BrowserWindowCreated w \<in> set evs" and n: "Closed w \<notin> set evs"
      by simp_all
    from c have m: "w \<in> set (createdWindows evs)" by (simp add: set_createdWindows)
    with paired_distinct_created [OF p] have one: "count_list (createdWindows evs) w = 1"
      by (simp add: distinct_count_list_one)
    from m n have live: "w \<in> set (liveWindows evs)" by (simp add: liveWindows_def)
    have "browserWindows (run env s (evs @ [e])) =
        spliceJS (liveWindows evs) (indexOf (liveWindows evs) w) 1"
      using Closed by (simp add: run_snoc step_Closed cl bw one)
    also have "\<dots> = remove1 w (liveWindows evs)"
      using live by (rule splice_indexOf_present)
    also have "\<dots> = liveWindows (evs @ [e])"
      using snoc.prems Closed by (simp add: liveWindows_closed)
    finally show ?thesis .
  next
    case SoftChange
    then show ?thesis by (simp add: run_snoc step_browserWindows_change liveWindows_change bw)
  next
    case HardChange
    then show ?thesis by (simp add: run_snoc step_browserWindows_change liveWindows_change bw)
  qed
  with cl' show ?case by simp
qed

lemma init_registry:
  "browserWindows (electronReload env g opts) = [] \<and>
   closedListeners (electronReload env g opts) = []"
  by (cases "hardResetEligible env (electron opts)")
     (simp_all add: electronReload_eligible electronReload_ineligible)

lemma hard_effects_no_reload:
  "list_all (\<lambda>l. handlerOf l \<noteq> SoftResetHandler) ls \<Longrightarrow>
   filter isReload (concat (map (effectsOf env bws) (map handlerOf ls))) = []"
proof (induction ls)
  case Nil
  then show ?case by simp
next
  case (Cons l ls)
  then have "handlerOf l \<noteq> SoftResetHandler" by simp
  then have "filter isReload (effectsOf env bws (handlerOf l)) = []"
    by (cases "handlerOf l") simp_all
  with Cons show ?case by simp
qed

lemma quietInv_step: "quietInv s \<Longrightarrow> quietInv (step env s e)"
proof (cases e)
  case HardChange
  assume q: "quietInv s"
  show ?thesis
  proof (cases "hardWatcher s")
    case None
    with q HardChange show ?thesis by (simp add: step_HardChange_None)
  next
    case (Some hw)
    from q Some have l: "list_all (\<lambda>l. handlerOf l \<noteq> SoftResetHandler) (listeners hw)"
      by (simp add: quietInv_def)
    then have l': "list_all (\<lambda>l. handlerOf l \<noteq> SoftResetHandler) (filter isOn (listeners hw))"
      by (simp add: list_all_iff)
    from q l l' hard_effects_no_reload [OF l] Some HardChange show ?thesis
      by (simp add: quietInv_def step_HardChange_Some)
  qed
qed (simp_all add: quietInv_def step_eqs)

lemma quietInv_run: "quietInv s \<Longrightarrow> quietInv (run env s evs)"
  by (induction evs rule: rev_induct) (simp_all add: run_Nil run_snoc quietInv_step)

lemma run_hardWatcher_idle:
  "HardChange \<notin> set evs \<Longrightarrow> hardWatcher (run env s evs) = hardWatcher s"
  by (induction evs rule: rev_induct) (auto simp add: run_Nil run_snoc step_hardWatcher)

lemma soft_open_step:
  "listeners (watcher s) = [On SoftResetHandler] \<Longrightarrow>
   trace (step env s SoftChange) = trace s @ map ReloadIgnoringCache (browserWindows s)"
  by (simp add: step_trace)


lemma onClosed_absent:
  "bw \<notin> set (browserWindows s) \<Longrightarrow>
   onClosed bw s = s\<lparr>browserWindows := butlast (browserWindows s)\<rparr>"
  by (simp add: onClosed_def splice_indexOf_absent)

lemma count_list_map_reload:
  "count_list (map ReloadIgnoringCache bws) (ReloadIgnoringCache bw) = count_list bws bw"
  by (induction bws) simp_all

subsection \<open>File changes\<close>

lemma init_watcher:
  "watcher (electronReload env g opts) =
     \<lparr>paths = arrify g,
      ignoredOpt = assignIgnored [RegExpM ignoredPaths, StringM (resolveMainFile env opts)] opts,
      closed = (forceHardReset opts = Some True \<and> hardResetEligible env (electron opts)),
      listeners =
        (if forceHardReset opts = Some True \<and> hardResetEligible env (electron opts)
         then [] else [On SoftResetHandler])\<rparr>"
  by (cases "hardResetEligible env (electron opts)")
     (simp_all add: electronReload_eligible electronReload_ineligible)





section \<open>The claims\<close>

lemmas sample_defs = sampleEnv_def noOptions_def overridingOptions_def escalatingOptions_def
  electronOptions_def orphanEnv_def


lemmas model_defs = electronReload_def resolveMainFile_def hardResetEligible_def nullish_def
  nullish_default_def assignIgnored_def watch_def add_def close_def on_def once_def arrify_def
  ignoreSet_def Let_def

subsection \<open>C1: what the soft watcher ignores\<close>

text \<open>
  C1, as stated, fails. The claim reads: for every configuration the entry file and the
  pattern \<open>ignoredPaths\<close> are in the ignore set of the soft-reset watcher. Line 61 builds
  the watcher's options with \<open>Object.assign({ ignored: [ignoredPaths, mainFile] }, options)\<close>,
  so a caller who passes \<open>ignored\<close> replaces both defaults. With
  \<open>ignored: ['dist']\<close> neither the entry file \<open>/app/main.js\<close> nor \<open>ignoredPaths\<close> is
  ignored.
\<close>

theorem soft_ignore_override_counterexample:
  "resolveMainFile sampleEnv overridingOptions = ''/app/main.js'' \<and>
   StringM ''/app/main.js'' \<notin>
     ignoreSet (watcher (electronReload sampleEnv (One ''src'') overridingOptions)) \<and>
   RegExpM ignoredPaths \<notin>
     ignoreSet (watcher (electronReload sampleEnv (One ''src'') overridingOptions))"
  by (simp add: sample_defs model_defs)

text \<open>
  C1, amended: for every configuration and after any events, the ignore set of the
  soft-reset watcher is exactly the pattern \<open>ignoredPaths\<close> and the entry-file path when
  the options have no \<open>ignored\<close> key; it is exactly the caller's entries when the options
  give \<open>ignored\<close> a value, and empty when they give it \<open>undefined\<close>, so the entry file
  and \<open>ignoredPaths\<close> are then ignored only if the caller lists them. And \<open>ignoredPaths\<close>
  matches exactly the paths that contain \<open>node_modules\<close>, or a dot directly after a slash
  or a backslash.
\<close>

theorem soft_ignore_set:
  "(ignored opts = Missing \<longrightarrow>
      ignoreSet (watcher (run env (electronReload env g opts) evs)) =
        {RegExpM ignoredPaths, StringM (resolveMainFile env opts)}) \<and>
   (ignored opts = Val ms \<longrightarrow>
      ignoreSet (watcher (run env (electronReload env g opts) evs)) = set ms) \<and>
   (ignored opts = Undefined \<longrightarrow>
      ignoreSet (watcher (run env (electronReload env g opts) evs)) = {}) \<and>
   (test ignoredPaths p \<longleftrightarrow>
      (\<exists>u w. p = u @ ''node_modules'' @ w) \<or> (\<exists>u w. p = u @ ''/.'' @ w) \<or>
      (\<exists>u w. p = u @ [CHR 0x5C, CHR ''.''] @ w))"
proof -
  have w: "watcher (run env (electronReload env g opts) evs) = watcher (electronReload env g opts)"
    using softInv_init by (rule run_watcher)
  have i: "ignoreSet (watcher (electronReload env g opts)) =
      (case ignored opts of
         Missing \<Rightarrow> {RegExpM ignoredPaths, StringM (resolveMainFile env opts)}
       | Undefined \<Rightarrow> {}
       | Val xs \<Rightarrow> set xs)"
    by (simp add: init_watcher ignoreSet_def assignIgnored_def split: jsprop.splits)
  show ?thesis by (simp add: w i test_ignoredPaths)
qed

text \<open>
  The amended C1 without options, with \<open>ignored: ['dist']\<close> and with
  \<open>ignored: undefined\<close>; a leading \<open>.git\<close> with no slash before it is not matched.
\<close>

theorem soft_ignore_set_witness:
  "ignored noOptions = Missing \<and>
   ignoreSet (watcher (run sampleEnv (electronReload sampleEnv (One ''src'') noOptions)
       [BrowserWindowCreated 1, SoftChange])) =
     {RegExpM ignoredPaths, StringM ''/app/main.js''} \<and>
   ignored overridingOptions = Val [StringM ''dist''] \<and>
   ignoreSet (watcher (run sampleEnv (electronReload sampleEnv (One ''src'') overridingOptions)
       [BrowserWindowCreated 1, SoftChange])) = {StringM ''dist''} \<and>
   ignored (noOptions\<lparr>ignored := Undefined\<rparr>) = Undefined \<and>
   ignoreSet (watcher (run sampleEnv
       (electronReload sampleEnv (One ''src'') (noOptions\<lparr>ignored := Undefined\<rparr>))
       [BrowserWindowCreated 1, SoftChange])) = {} \<and>
   test ignoredPaths ''/app/node_modules/x.js'' \<and> test ignoredPaths ''/app/.git'' \<and>
   \<not> test ignoredPaths ''.git'' \<and> \<not> test ignoredPaths ''/app/src/a.b.js''"
proof -
  have h: "ignored noOptions = Missing" "ignored overridingOptions = Val [StringM ''dist'']"
    "ignored (noOptions\<lparr>ignored := Undefined\<rparr>) = Undefined"
    by (simp_all add: sample_defs)
  have r: "resolveMainFile sampleEnv noOptions = ''/app/main.js''"
    by (simp add: sample_defs model_defs)
  have t: "test ignoredPaths ''/app/node_modules/x.js''" "test ignoredPaths ''/app/.git''"
    "\<not> test ignoredPaths ''.git''" "\<not> test ignoredPaths ''/app/src/a.b.js''"
    by (simp_all add: ignoredPaths_def)
  let ?evs = "[BrowserWindowCreated 1, SoftChange]"
  from soft_ignore_set [where opts = noOptions and env = sampleEnv and g = "One ''src''"
      and evs = ?evs and p = "''/app/.git''"] h(1) r
  have a: "ignoreSet (watcher (run sampleEnv (electronReload sampleEnv (One ''src'') noOptions)
      ?evs)) = {RegExpM ignoredPaths, StringM ''/app/main.js''}"
    by simp
  from soft_ignore_set [where opts = overridingOptions and ms = "[StringM ''dist'']"
      and env = sampleEnv and g = "One ''src''" and evs = ?evs and p = "''/app/.git''"] h(2)
  have b: "ignoreSet (watcher (run sampleEnv
      (electronReload sampleEnv (One ''src'') overridingOptions) ?evs)) = {StringM ''dist''}"
    by simp
  from soft_ignore_set [where opts = "noOptions\<lparr>ignored := Undefined\<rparr>" and env = sampleEnv
      and g = "One ''src''" and evs = ?evs and p = "''/app/.git''"] h(3)
  have c: "ignoreSet (watcher (run sampleEnv
      (electronReload sampleEnv (One ''src'') (noOptions\<lparr>ignored := Undefined\<rparr>)) ?evs)) = {}"
    by simp
  from h a b c t show ?thesis by blast
qed

subsection \<open>C2: escalation\<close>

text \<open>
  C2, as stated, fails. The claim reads: whenever \<open>forceHardReset\<close> is true the soft-reset
  watcher is closed and the hard-reset watcher's pattern set equals the glob set. The
  escalation of lines 98 to 103 sits inside the branch of line 92, so without an
  executable nothing is closed and no hard-reset watcher exists (first three conjuncts);
  and with one, \<open>hardWatcher.add(glob)\<close> adds the glob to a watcher that already watches
  the entry file, so the pattern set is the entry file and the glob (last conjuncts).
\<close>

theorem escalation_counterexample:
  "forceHardReset escalatingOptions = Some True \<and>
   \<not> closed (watcher (electronReload sampleEnv (One ''src'') escalatingOptions)) \<and>
   hardWatcher (electronReload sampleEnv (One ''src'') escalatingOptions) = None \<and>
   forceHardReset (electronOptions\<lparr>forceHardReset := Some True\<rparr>) = Some True \<and>
   map_option paths
     (hardWatcher (electronReload sampleEnv (One ''src'')
        (electronOptions\<lparr>forceHardReset := Some True\<rparr>))) = Some [''/app/main.js'', ''src''] \<and>
   set [''/app/main.js'', ''src''] \<noteq> set (arrify (One ''src''))"
  by (simp add: sample_defs model_defs)

text \<open>
  C2, amended: for every configuration in which \<open>forceHardReset\<close> is true and hard reset
  is eligible (an executable is configured and exists), the soft-reset watcher is closed
  and has no listener, no event sequence ever reloads a window, and the hard-reset
  watcher watches the entry file followed by the full glob set, with the respawn callback
  bound one-shot.
\<close>

theorem escalation_eligible:
  assumes "forceHardReset opts = Some True"
    and "electron opts = Some e" and "existsSync env e"
  shows "closed (watcher (run env (electronReload env g opts) evs)) \<and>
         listeners (watcher (run env (electronReload env g opts) evs)) = [] \<and>
         filter isReload (trace (run env (electronReload env g opts) evs)) = [] \<and>
         map_option paths (hardWatcher (electronReload env g opts)) =
           Some (resolveMainFile env opts # arrify g) \<and>
         map_option listeners (hardWatcher (electronReload env g opts)) =
           Some [Once (HardResetHandler e (hardResetMethod opts) (argv opts))]"
proof -
  let ?s0 = "electronReload env g opts"
  from assms(2,3) have el: "hardResetEligible env (electron opts)"
    by (simp add: hardResetEligible_def)
  have q: "quietInv ?s0"
    using assms(1) by (simp add: quietInv_def electronReload_eligible [OF el])
  have w: "watcher (run env ?s0 evs) = watcher ?s0"
    using softInv_init by (rule run_watcher)
  from quietInv_run [OF q, of env evs] have "filter isReload (trace (run env ?s0 evs)) = []"
    by (simp add: quietInv_def)
  moreover have "closed (watcher ?s0)" "listeners (watcher ?s0) = []"
    using assms(1) by (simp_all add: electronReload_eligible [OF el])
  moreover have "map_option paths (hardWatcher ?s0) = Some (resolveMainFile env opts # arrify g)"
    using assms(1) by (simp add: electronReload_eligible [OF el])
  moreover have "map_option listeners (hardWatcher ?s0) =
      Some [Once (HardResetHandler e (hardResetMethod opts) (argv opts))]"
    using assms(2) by (simp add: electronReload_eligible [OF el] nullish_default_def)
  ultimately show ?thesis by (simp add: w)
qed

text \<open>The amended C2 at the sample configuration with the executable and the flag set.\<close>

theorem escalation_eligible_witness:
  "forceHardReset (electronOptions\<lparr>forceHardReset := Some True\<rparr>) = Some True \<and>
   electron (electronOptions\<lparr>forceHardReset := Some True\<rparr>) = Some ''/usr/bin/electron'' \<and>
   existsSync sampleEnv ''/usr/bin/electron'' \<and>
   closed (watcher (run sampleEnv
     (electronReload sampleEnv (One ''src'') (electronOptions\<lparr>forceHardReset := Some True\<rparr>))
     [BrowserWindowCreated 1, SoftChange, HardChange])) \<and>
   filter isReload (trace (run sampleEnv
     (electronReload sampleEnv (One ''src'') (electronOptions\<lparr>forceHardReset := Some True\<rparr>))
     [BrowserWindowCreated 1, SoftChange, HardChange])) = [] \<and>
   map_option paths (hardWatcher
     (electronReload sampleEnv (One ''src'') (electronOptions\<lparr>forceHardReset := Some True\<rparr>))) =
     Some [''/app/main.js'', ''src'']"
proof -
  have h1: "forceHardReset (electronOptions\<lparr>forceHardReset := Some True\<rparr>) = Some True"
    by simp
  have h2: "electron (electronOptions\<lparr>forceHardReset := Some True\<rparr>) = Some ''/usr/bin/electron''"
    by (simp add: sample_defs)
  have h3: "existsSync sampleEnv ''/usr/bin/electron''"
    by (simp add: sample_defs)
  have r: "resolveMainFile sampleEnv (electronOptions\<lparr>forceHardReset := Some True\<rparr>) = ''/app/main.js''"
    by (simp add: sample_defs model_defs)
  from escalation_eligible [OF h1 h2 h3, of "One ''src''" "[BrowserWindowCreated 1, SoftChange, HardChange]"]
    h1 h2 h3 r show ?thesis by (simp add: arrify_def)
qed

subsection \<open>C3: the \<open>'closed'\<close> listener\<close>




subsection \<open>C4: the hard reset fires at most once\<close>

text \<open>
  C4: after start-up with any configuration and for every sequence of events, the trace
  holds at most one spawn; and once the hard-reset watcher has emitted a change, a
  further change emitted by it leaves the state, trace included, as it is.
\<close>

theorem hard_reset_at_most_once:
  "length (filter isSpawn (trace (run env (electronReload env g opts) evs))) \<le> 1 \<and>
   step env (run env (electronReload env g opts) (evs @ HardChange # evs')) HardChange =
     run env (electronReload env g opts) (evs @ HardChange # evs')"
proof -
  let ?s0 = "electronReload env g opts"
  have inv: "hardInv (run env ?s0 xs)" for xs
    using inv_run [OF softInv_init hardInv_init] by simp
  from inv [of evs] have "length (filter isSpawn (trace (run env ?s0 evs))) \<le> 1"
    by (rule hardInv_spawns)
  moreover have "spent (run env ?s0 (evs @ HardChange # evs'))"
  proof -
    have "spent (step env (run env ?s0 evs) HardChange)"
      using inv [of evs] by (rule spent_after_HardChange)
    then have "spent (run env (step env (run env ?s0 evs) HardChange) evs')"
      by (rule spent_run)
    then show ?thesis by (simp add: run_append run_Cons)
  qed
  ultimately show ?thesis by (simp add: spent_idle)
qed

text \<open>C4 on a run with three changes of the entry file: one spawn.\<close>

theorem hard_reset_at_most_once_witness:
  "length (filter isSpawn (trace (run sampleEnv
      (electronReload sampleEnv (One ''src'') electronOptions)
      [HardChange, SoftChange, HardChange, HardChange]))) \<le> 1 \<and>
   filter isSpawn (trace (run sampleEnv
      (electronReload sampleEnv (One ''src'') electronOptions)
      [HardChange, SoftChange, HardChange, HardChange])) =
     [Spawn ''/usr/bin/electron'' [''/app''] \<lparr>detached = True, stdio = ''inherit''\<rparr>]"
proof -
  have "filter isSpawn (trace (run sampleEnv
      (electronReload sampleEnv (One ''src'') electronOptions)
      [HardChange, SoftChange, HardChange, HardChange])) =
     [Spawn ''/usr/bin/electron'' [''/app''] \<lparr>detached = True, stdio = ''inherit''\<rparr>]"
    by (simp add: run_def step.simps emit_def createHardresetHandler_def softResetHandler_def
        forEach_def perform_def sample_defs model_defs)
  with hard_reset_at_most_once [of sampleEnv "One ''src''" electronOptions
      "[HardChange, SoftChange, HardChange, HardChange]"]
  show ?thesis by simp
qed

subsection \<open>C5: eligibility of the hard reset\<close>

text \<open>
  C5: a hard-reset watcher is created if and only if an executable path is configured
  and exists at start-up, and then no diagnostic is logged. Otherwise the diagnostic is
  the only thing logged, there is no hard-reset watcher after any sequence of events, and
  no effect of the respawner ever enters the trace.
\<close>

theorem hard_reset_eligibility:
  "(hardWatcher (electronReload env g opts) \<noteq> None) =
     (\<exists>e. electron opts = Some e \<and> existsSync env e) \<and>
   ((\<exists>e. electron opts = Some e \<and> existsSync env e) \<longrightarrow>
      trace (electronReload env g opts) = []) \<and>
   (\<not> (\<exists>e. electron opts = Some e \<and> existsSync env e) \<longrightarrow>
      trace (electronReload env g opts) = [ConsoleLog diagnostic] \<and>
      hardWatcher (run env (electronReload env g opts) evs) = None \<and>
      filter isRespawn (trace (run env (electronReload env g opts) evs)) = [])"
proof (cases "hardResetEligible env (electron opts)")
  case True
  then have "\<exists>e. electron opts = Some e \<and> existsSync env e"
    by (simp add: hardResetEligible_iff)
  then show ?thesis by (simp add: electronReload_eligible [OF True])
next
  case False
  then have n: "\<not> (\<exists>e. electron opts = Some e \<and> existsSync env e)"
    by (simp add: hardResetEligible_iff)
  let ?s0 = "electronReload env g opts"
  have h0: "hardWatcher ?s0 = None" by (simp add: electronReload_ineligible [OF False])
  then have h: "hardWatcher (run env ?s0 evs) = None" by (rule run_hardWatcher_None)
  have "hardInv (run env ?s0 evs)"
    using inv_run [OF softInv_init hardInv_init] by simp
  with h have "filter isRespawn (trace (run env ?s0 evs)) = []"
    by (simp add: hardInv_def)
  with n h h0 show ?thesis by (simp add: electronReload_ineligible [OF False])
qed

text \<open>C5 at the sample configurations without and with the executable.\<close>

theorem hard_reset_eligibility_witness:
  "\<not> (\<exists>e. electron noOptions = Some e \<and> existsSync sampleEnv e) \<and>
   hardWatcher (electronReload sampleEnv (One ''src'') noOptions) = None \<and>
   trace (electronReload sampleEnv (One ''src'') noOptions) = [ConsoleLog diagnostic] \<and>
   filter isRespawn (trace (run sampleEnv (electronReload sampleEnv (One ''src'') noOptions)
     [HardChange, SoftChange, HardChange])) = [] \<and>
   (\<exists>e. electron electronOptions = Some e \<and> existsSync sampleEnv e) \<and>
   hardWatcher (electronReload sampleEnv (One ''src'') electronOptions) \<noteq> None \<and>
   trace (electronReload sampleEnv (One ''src'') electronOptions) = []"
proof -
  have a: "\<not> (\<exists>e. electron noOptions = Some e \<and> existsSync sampleEnv e)"
    by (simp add: sample_defs)
  have b: "\<exists>e. electron electronOptions = Some e \<and> existsSync sampleEnv e"
    by (simp add: sample_defs)
  from hard_reset_eligibility [of sampleEnv "One ''src''" noOptions "[HardChange, SoftChange, HardChange]"]
    hard_reset_eligibility [of sampleEnv "One ''src''" electronOptions "[]"] a b
  show ?thesis by simp
qed

subsection \<open>C6: what the hard-reset callback does\<close>

text \<open>
  C6: a call of the hard-reset callback appends to the trace, in this order, the spawn of
  the executable with the caller's \<open>argv\<close> (none: the empty list) followed by the
  application path, detached and with inherited standard streams, the \<open>unref\<close> of the
  child, and then \<open>app.exit()\<close> exactly when the method is \<open>'exit'\<close>, \<open>app.quit()\<close>
  otherwise. With an eligible configuration this is what the first change emitted by the
  hard-reset watcher does, with the configured executable, \<open>argv\<close> and method.
\<close>

theorem hard_reset_sequence:
  "trace (createHardresetHandler env x m a s) = trace s @
     [Spawn x ((case a of None \<Rightarrow> [] | Some v \<Rightarrow> v) @ [appPath env])
        \<lparr>detached = True, stdio = ''inherit''\<rparr>,
      ChildUnref,
      if m = Some ''exit'' then AppExit else AppQuit] \<and>
   (electron opts = Some e \<and> existsSync env e \<and> HardChange \<notin> set evs \<longrightarrow>
      trace (step env (run env (electronReload env g opts) evs) HardChange) =
        trace (run env (electronReload env g opts) evs) @
          [Spawn e ((case argv opts of None \<Rightarrow> [] | Some v \<Rightarrow> v) @ [appPath env])
             \<lparr>detached = True, stdio = ''inherit''\<rparr>,
           ChildUnref,
           if hardResetMethod opts = Some ''exit'' then AppExit else AppQuit])"
proof -
  have "trace (step env (run env (electronReload env g opts) evs) HardChange) =
        trace (run env (electronReload env g opts) evs) @
          [Spawn e ((case argv opts of None \<Rightarrow> [] | Some v \<Rightarrow> v) @ [appPath env])
             \<lparr>detached = True, stdio = ''inherit''\<rparr>,
           ChildUnref,
           if hardResetMethod opts = Some ''exit'' then AppExit else AppQuit]"
    if h: "electron opts = Some e" "existsSync env e" "HardChange \<notin> set evs"
  proof -
    let ?s0 = "electronReload env g opts"
    from h(1,2) have el: "hardResetEligible env (electron opts)"
      by (simp add: hardResetEligible_def)
    have "hardWatcher (run env ?s0 evs) = hardWatcher ?s0"
      using h(3) by (rule run_hardWatcher_idle)
    then obtain hw where hw: "hardWatcher (run env ?s0 evs) = Some hw"
      "listeners hw = [Once (HardResetHandler e (hardResetMethod opts) (argv opts))]"
      using h(1) by (simp add: electronReload_eligible [OF el] nullish_default_def)
    show ?thesis
      by (simp add: step_HardChange_Some [OF hw(1)] hw(2) nullish_default_def)
  qed
  then show ?thesis
    by (simp add: createHardresetHandler_eq nullish_default_def)
qed

text \<open>C6 at the sample configuration, with method \<open>'exit'\<close> and with no method.\<close>

theorem hard_reset_sequence_witness:
  "electron (electronOptions\<lparr>hardResetMethod := Some ''exit'', argv := Some [''--dev'']\<rparr>) =
     Some ''/usr/bin/electron'' \<and>
   existsSync sampleEnv ''/usr/bin/electron'' \<and> HardChange \<notin> set [SoftChange] \<and>
   trace (step sampleEnv (run sampleEnv (electronReload sampleEnv (One ''src'')
       (electronOptions\<lparr>hardResetMethod := Some ''exit'', argv := Some [''--dev'']\<rparr>))
       [SoftChange]) HardChange) =
     [Spawn ''/usr/bin/electron'' [''--dev'', ''/app''] \<lparr>detached = True, stdio = ''inherit''\<rparr>,
      ChildUnref, AppExit] \<and>
   trace (step sampleEnv (run sampleEnv (electronReload sampleEnv (One ''src'') electronOptions)
       [SoftChange]) HardChange) =
     [Spawn ''/usr/bin/electron'' [''/app''] \<lparr>detached = True, stdio = ''inherit''\<rparr>,
      ChildUnref, AppQuit]"
proof -
  let ?o = "electronOptions\<lparr>hardResetMethod := Some ''exit'', argv := Some [''--dev'']\<rparr>"
  have h1: "electron ?o = Some ''/usr/bin/electron''" by (simp add: sample_defs)
  have h1': "electron electronOptions = Some ''/usr/bin/electron''" by (simp add: sample_defs)
  have h2: "existsSync sampleEnv ''/usr/bin/electron''" by (simp add: sample_defs)
  have h3: "HardChange \<notin> set [SoftChange]" by simp
  have t: "trace (run sampleEnv (electronReload sampleEnv (One ''src'') ?o) [SoftChange]) = []"
    "trace (run sampleEnv (electronReload sampleEnv (One ''src'') electronOptions) [SoftChange]) = []"
    by (simp_all add: run_def step.simps emit_def softResetHandler_def
        forEach_def sample_defs model_defs)
  have p: "appPath sampleEnv = ''/app''" "argv electronOptions = None"
    "hardResetMethod electronOptions = None" by (simp_all add: sample_defs)
  from hard_reset_sequence [of sampleEnv _ _ _ _ ?o "''/usr/bin/electron''" "[SoftChange]" "One ''src''"]
    hard_reset_sequence [of sampleEnv _ _ _ _ electronOptions "''/usr/bin/electron''" "[SoftChange]" "One ''src''"]
    h1 h1' h2 h3 t p
  show ?thesis by simp
qed


subsection \<open>C7: the registry holds the live windows\<close>

text \<open>
  C7: for every sequence of events in which each window is created once and closed at
  most once, after its creation, the registry is after the sequence the list of the
  windows created and not closed, in the order of creation; as a set, exactly the
  created-but-not-yet-closed windows.
\<close>

theorem registry_is_live_windows:
  assumes "paired evs"
  shows "browserWindows (run env (electronReload env g opts) evs) = liveWindows evs \<and>
         set (browserWindows (run env (electronReload env g opts) evs)) =
           {bw. BrowserWindowCreated bw \<in> set evs \<and> Closed bw \<notin> set evs}"
proof -
  have "browserWindows (run env (electronReload env g opts) evs) = liveWindows evs"
    using registry_run [OF _ _ assms, of "electronReload env g opts" env] init_registry [of env g opts]
    by simp
  moreover have "set (liveWindows evs) =
      {bw. BrowserWindowCreated bw \<in> set evs \<and> Closed bw \<notin> set evs}"
    by (auto simp: liveWindows_def set_createdWindows)
  ultimately show ?thesis by simp
qed

text \<open>C7 on a run that creates three windows and closes the first.\<close>

theorem registry_is_live_windows_witness:
  "paired [BrowserWindowCreated 1, BrowserWindowCreated 2, SoftChange, Closed 1,
      BrowserWindowCreated 3, HardChange] \<and>
   browserWindows (run sampleEnv (electronReload sampleEnv (One ''src'') electronOptions)
     [BrowserWindowCreated 1, BrowserWindowCreated 2, SoftChange, Closed 1,
      BrowserWindowCreated 3, HardChange]) = [2, 3]"
proof -
  have h: "paired [BrowserWindowCreated 1, BrowserWindowCreated 2, SoftChange, Closed 1,
      BrowserWindowCreated 3, HardChange]"
    by (simp add: paired_def)
  have l: "liveWindows [BrowserWindowCreated 1, BrowserWindowCreated 2, SoftChange, Closed 1,
      BrowserWindowCreated 3, HardChange] = [2, 3]"
    by (simp add: liveWindows_def)
  from registry_is_live_windows [OF h, of sampleEnv "One ''src''" electronOptions] h l
  show ?thesis by simp
qed

subsection \<open>C8: the reload broadcast\<close>

text \<open>
  C8: for every state, the empty registry included, the soft-reset callback appends one
  \<open>reloadIgnoringCache\<close> for each entry of the registry, in registry order, and nothing
  else, and leaves the registry as it is. So a window outside the registry is never
  reloaded, and with no window registered twice each registered window is reloaded exactly
  once.
\<close>

theorem broadcast_reload:
  "trace (softResetHandler s) = trace s @ map ReloadIgnoringCache (browserWindows s) \<and>
   browserWindows (softResetHandler s) = browserWindows s \<and>
   (distinct (browserWindows s) \<longrightarrow>
      count_list (map ReloadIgnoringCache (browserWindows s)) (ReloadIgnoringCache bw) =
        (if bw \<in> set (browserWindows s) then 1 else 0))"
  by (simp add: softResetHandler_eq count_list_map_reload distinct_count_list_one)

text \<open>C8 at a registry of two windows and at the empty registry.\<close>

theorem broadcast_reload_witness:
  "distinct (browserWindows \<lparr>browserWindows = [4, 7], closedListeners = [4, 7],
      watcher = watch (One ''src'') None, hardWatcher = None, trace = []\<rparr>) \<and>
   trace (softResetHandler \<lparr>browserWindows = [4, 7], closedListeners = [4, 7],
      watcher = watch (One ''src'') None, hardWatcher = None, trace = []\<rparr>) =
     [ReloadIgnoringCache 4, ReloadIgnoringCache 7] \<and>
   trace (softResetHandler \<lparr>browserWindows = [], closedListeners = [],
      watcher = watch (One ''src'') None, hardWatcher = None, trace = []\<rparr>) = []"
  using broadcast_reload [of "\<lparr>browserWindows = [4, 7], closedListeners = [4, 7],
      watcher = watch (One ''src'') None, hardWatcher = None, trace = []\<rparr>" 4]
    broadcast_reload [of "\<lparr>browserWindows = [], closedListeners = [],
      watcher = watch (One ''src'') None, hardWatcher = None, trace = []\<rparr>" 4]
  by simp

subsection \<open>C9: the entry file\<close>




subsection \<open>C10: escalation without an executable\<close>

text \<open>
  C10: when \<open>forceHardReset\<close> is true but no executable is configured or the configured
  one does not exist, the soft-reset watcher is open after every sequence of events, its
  listener is still bound, every change it emits reloads all registered windows, and
  start-up leaves the same state as without the flag.
\<close>

theorem escalation_without_executable:
  assumes "forceHardReset opts = Some True"
    and "\<not> (\<exists>e. electron opts = Some e \<and> existsSync env e)"
  shows "\<not> closed (watcher (run env (electronReload env g opts) evs)) \<and>
         listeners (watcher (run env (electronReload env g opts) evs)) = [On SoftResetHandler] \<and>
         trace (step env (run env (electronReload env g opts) evs) SoftChange) =
           trace (run env (electronReload env g opts) evs) @
             map ReloadIgnoringCache (browserWindows (run env (electronReload env g opts) evs)) \<and>
         electronReload env g opts = electronReload env g (opts\<lparr>forceHardReset := None\<rparr>)"
proof -
  let ?s0 = "electronReload env g opts"
  from assms(2) have ne: "\<not> hardResetEligible env (electron opts)"
    by (simp add: hardResetEligible_iff)
  then have ne': "\<not> hardResetEligible env (electron (opts\<lparr>forceHardReset := None\<rparr>))"
    by simp
  have w: "watcher (run env ?s0 evs) = watcher ?s0"
    using softInv_init by (rule run_watcher)
  have "listeners (watcher ?s0) = [On SoftResetHandler]"
    by (simp add: electronReload_ineligible [OF ne])
  then have l: "listeners (watcher (run env ?s0 evs)) = [On SoftResetHandler]"
    by (simp add: w)
  have "\<not> closed (watcher ?s0)"
    by (simp add: electronReload_ineligible [OF ne])
  then have c: "\<not> closed (watcher (run env ?s0 evs))"
    by (simp add: w)
  have e: "?s0 = electronReload env g (opts\<lparr>forceHardReset := None\<rparr>)"
    by (simp add: electronReload_ineligible [OF ne] electronReload_ineligible [OF ne']
        resolveMainFile_def assignIgnored_def)
  from soft_open_step [OF l, of env] l c e show ?thesis by blast
qed

text \<open>C10 at the sample configuration with the flag and no executable.\<close>

theorem escalation_without_executable_witness:
  "forceHardReset escalatingOptions = Some True \<and>
   \<not> (\<exists>e. electron escalatingOptions = Some e \<and> existsSync sampleEnv e) \<and>
   \<not> closed (watcher (run sampleEnv (electronReload sampleEnv (One ''src'') escalatingOptions)
      [BrowserWindowCreated 1, HardChange, SoftChange])) \<and>
   trace (step sampleEnv (run sampleEnv (electronReload sampleEnv (One ''src'') escalatingOptions)
      [BrowserWindowCreated 1, HardChange, SoftChange]) SoftChange) =
     [ConsoleLog diagnostic, ReloadIgnoringCache 1, ReloadIgnoringCache 1]"
proof -
  let ?r = "run sampleEnv (electronReload sampleEnv (One ''src'') escalatingOptions)
      [BrowserWindowCreated 1, HardChange, SoftChange]"
  have h1: "forceHardReset escalatingOptions = Some True" by (simp add: sample_defs)
  have h2: "\<not> (\<exists>e. electron escalatingOptions = Some e \<and> existsSync sampleEnv e)"
    by (simp add: sample_defs)
  have t: "trace ?r = [ConsoleLog diagnostic, ReloadIgnoringCache 1]" "browserWindows ?r = [1]"
    by (simp_all add: run_def step.simps emit_def onBrowserWindowCreated_def softResetHandler_def
        forEach_def perform_def sample_defs model_defs)
  note th = escalation_without_executable [OF h1 h2, of "One ''src''"
      "[BrowserWindowCreated 1, HardChange, SoftChange]"]
  from th have c: "\<not> closed (watcher ?r)" by (rule conjunct1)
  from th have "trace (step sampleEnv ?r SoftChange) =
      trace ?r @ map ReloadIgnoringCache (browserWindows ?r)" by blast
  then have "trace (step sampleEnv ?r SoftChange) =
      [ConsoleLog diagnostic, ReloadIgnoringCache 1, ReloadIgnoringCache 1]"
    by (simp only: t list.map append.simps)
  with h1 h2 c show ?thesis by blast
qed

end
